theory Spec2Isabelle
  imports Main "HOL-Library.Sublist"
begin

section \<open>Python sequence slicing\<close>

text \<open>
  The source slices strings with \<^verbatim>\<open>s[a:]\<close>, \<^verbatim>\<open>s[:b]\<close> and \<^verbatim>\<open>s[a:b]\<close>. Python first
  normalises a bound against the length \<open>n\<close>: a negative bound has \<open>n\<close> added and is
  then clamped at 0, a bound beyond \<open>n\<close> is clamped at \<open>n\<close>; an omitted lower bound is 0
  and an omitted upper bound is \<open>n\<close>. The slice is empty when the normalised lower bound
  is not below the upper one.
\<close>

definition py_bound :: "nat \<Rightarrow> int \<Rightarrow> nat" where
  "py_bound n i =
     (if i < 0 then (if i + int n < 0 then 0 else nat (i + int n))
      else if int n < i then n else nat i)"

definition py_slice :: "'a list \<Rightarrow> int option \<Rightarrow> int option \<Rightarrow> 'a list" where
  "py_slice xs start stop =
     (let lo = (case start of None \<Rightarrow> 0 | Some i \<Rightarrow> py_bound (length xs) i);
          hi = (case stop of None \<Rightarrow> length xs | Some j \<Rightarrow> py_bound (length xs) j)
      in take (hi - lo) (drop lo xs))"


section \<open>Origin locator: \<^verbatim>\<open>get_gc_skew_ori\<close>\<close>

text \<open>One update of the running skew: \<open>+1\<close> on G, \<open>-1\<close> on C, unchanged otherwise.\<close>

definition skew_step :: "char \<Rightarrow> int \<Rightarrow> int" where
  "skew_step base skew =
     (if base = CHR ''G'' then skew + 1
      else if base = CHR ''C'' then skew - 1
      else skew)"

text \<open>
  The \<^verbatim>\<open>for i, base in enumerate(sequence)\<close> loop. The state is the triple
  \<open>(skew, min_skew, min_idx)\<close>; the first argument is the index \<open>i\<close> of the base at
  the head of the remaining sequence.
\<close>

fun scan_loop :: "int \<Rightarrow> string \<Rightarrow> int \<times> int \<times> int \<Rightarrow> int \<times> int \<times> int" where
  "scan_loop i [] st = st"
| "scan_loop i (base # rest) (skew, min_skew, min_idx) =
     (let skew' = skew_step base skew in
      if skew' < min_skew then scan_loop (i + 1) rest (skew', skew', i)
      else scan_loop (i + 1) rest (skew', min_skew, min_idx))"

definition get_gc_skew_ori :: "string \<Rightarrow> int \<Rightarrow> string \<times> int" where
  "get_gc_skew_ori sequence window_size =
     (case scan_loop 0 sequence (0, 0, 0) of (skew, min_skew, min_idx) \<Rightarrow>
        let len = int (length sequence);
            start = min_idx - window_size div 2;
            end = min_idx + window_size div 2;
            ori_seq =
              (if start < 0 then
                 py_slice sequence (Some start) None @ py_slice sequence None (Some end)
               else if end > len then
                 py_slice sequence (Some start) None @ py_slice sequence None (Some (end - len))
               else py_slice sequence (Some start) (Some end))
        in (ori_seq, min_idx))"

text \<open>
  The values the loop variable \<^verbatim>\<open>skew\<close> takes, one per base: the running skew
  sequence, started from a given skew.
\<close>

fun skews_from :: "int \<Rightarrow> string \<Rightarrow> int list" where
  "skews_from skew [] = []"
| "skews_from skew (base # rest) = skew_step base skew # skews_from (skew_step base skew) rest"

definition running_skew :: "string \<Rightarrow> int list" where
  "running_skew sequence = skews_from 0 sequence"


text \<open>
  The window the specification describes: \<open>k\<close> bases read off the sequence taken as a
  circle, from position \<open>a\<close> on (positions are taken modulo the length). It is the
  yardstick the extracted window is compared with.
\<close>

definition circular_window :: "'a list \<Rightarrow> int \<Rightarrow> nat \<Rightarrow> 'a list" where
  "circular_window xs a k = map (\<lambda>j. xs ! nat ((a + int j) mod int (length xs))) [0..<k]"


section \<open>Assembly: the main block of the script\<close>

definition BIOBRICK_SCAR :: string where
  "BIOBRICK_SCAR = ''TACTAGAG''"

definition ORI_KEY_IN_DESIGN :: string where
  "ORI_KEY_IN_DESIGN = ''ori_pMB1''"

text \<open>
  A JSON object of strings is a dictionary; \<^verbatim>\<open>key in d\<close> and \<^verbatim>\<open>d[key]\<close> are its two
  operations, the second raising \<^verbatim>\<open>KeyError\<close> on an absent key. The default-gene
  dictionary is only iterated with \<^verbatim>\<open>.items()\<close>, so it is the list of its items in
  iteration order.
\<close>

datatype error = KeyError string

type_synonym dict = "string \<rightharpoonup> string"

definition dict_contains :: "dict \<Rightarrow> string \<Rightarrow> bool" where
  "dict_contains d key = (d key \<noteq> None)"

definition dict_get :: "dict \<Rightarrow> string \<Rightarrow> error + string" where
  "dict_get d key = (case d key of None \<Rightarrow> Inl (KeyError key) | Some v \<Rightarrow> Inr v)"

text \<open>\<^verbatim>\<open>s.endswith(suf)\<close>\<close>

definition endswith :: "string \<Rightarrow> string \<Rightarrow> bool" where
  "endswith s suf = (length suf \<le> length s \<and> drop (length s - length suf) s = suf)"


text \<open>The messages the assembly prints, one constructor per \<^verbatim>\<open>print\<close> call.\<close>

datatype event =
    FoundOri string
  | MissingWarning string
  | ScheduledMCS string
  | ScheduledMarker string
  | AddingDefaultGenes
  | AddedDefaultGene string
  | Success
  | EcoRIAbsent
  | EcoRIPresent
  | Failure

text \<open>The variables of the sorting step, and what has been printed so far.\<close>

record parts =
  ori_part :: string
  marker_parts :: "string list"
  mcs_parts :: "string list"
  printed :: "event list"

text \<open>The body of \<^verbatim>\<open>for key in design_keys\<close>.\<close>

definition classify_key :: "string \<Rightarrow> dict \<Rightarrow> string \<Rightarrow> parts \<Rightarrow> error + parts" where
  "classify_key found_ori_seq markers_db key st =
     (if key = ORI_KEY_IN_DESIGN then
        Inr (st\<lparr>ori_part := found_ori_seq, printed := printed st @ [FoundOri key]\<rparr>)
      else if dict_contains markers_db key then
        (case dict_get markers_db key of
           Inl e \<Rightarrow> Inl e
         | Inr part_seq \<Rightarrow>
             if endswith key ''_site'' then
               Inr (st\<lparr>mcs_parts := mcs_parts st @ [part_seq],
                        printed := printed st @ [ScheduledMCS key]\<rparr>)
             else
               Inr (st\<lparr>marker_parts := marker_parts st @ [part_seq],
                        printed := printed st @ [ScheduledMarker key]\<rparr>))
      else Inr (st\<lparr>printed := printed st @ [MissingWarning key]\<rparr>))"

fun classify_loop :: "string \<Rightarrow> dict \<Rightarrow> string list \<Rightarrow> parts \<Rightarrow> error + parts" where
  "classify_loop found_ori_seq markers_db [] st = Inr st"
| "classify_loop found_ori_seq markers_db (key # keys) st =
     (case classify_key found_ori_seq markers_db key st of
        Inl e \<Rightarrow> Inl e
      | Inr st' \<Rightarrow> classify_loop found_ori_seq markers_db keys st')"

definition initial_parts :: parts where
  "initial_parts = \<lparr>ori_part = [], marker_parts = [], mcs_parts = [], printed = []\<rparr>"

text \<open>
  The appending loop \<^verbatim>\<open>for seq in ...: if final_plasmid: final_plasmid += SCAR; final_plasmid += seq\<close>.
  The script uses the constant \<open>BIOBRICK_SCAR\<close>; the spacer is an argument here so that the
  same loop can be run with another spacer.
\<close>

fun append_parts :: "string \<Rightarrow> string list \<Rightarrow> string \<Rightarrow> string" where
  "append_parts scar [] final = final"
| "append_parts scar (seq # rest) final =
     append_parts scar rest ((if final \<noteq> [] then final @ scar else final) @ seq)"

fun append_default_genes ::
  "string \<Rightarrow> (string \<times> string) list \<Rightarrow> string \<times> event list \<Rightarrow> string \<times> event list" where
  "append_default_genes scar [] st = st"
| "append_default_genes scar ((gene_name, gene_seq) # rest) (final, pr) =
     append_default_genes scar rest
       ((if final \<noteq> [] then final @ scar else final) @ gene_seq,
        pr @ [AddedDefaultGene gene_name])"

text \<open>Step 5 of the script: the accumulator starts as \<open>ori_part\<close>.\<close>

definition concatenate :: "string \<Rightarrow> (string \<times> string) list \<Rightarrow> parts \<Rightarrow> string \<times> event list" where
  "concatenate scar default_genes_db st =
     (let final = append_parts scar (marker_parts st) (ori_part st);
          final = append_parts scar (mcs_parts st) final
      in if default_genes_db \<noteq> [] then
           append_default_genes scar default_genes_db (final, printed st @ [AddingDefaultGenes])
         else (final, printed st))"

definition assemble ::
  "string \<Rightarrow> string \<Rightarrow> dict \<Rightarrow> (string \<times> string) list \<Rightarrow> string list
     \<Rightarrow> error + string \<times> event list" where
  "assemble scar found_ori_seq markers_db default_genes_db design_keys =
     (case classify_loop found_ori_seq markers_db design_keys initial_parts of
        Inl e \<Rightarrow> Inl e
      | Inr st \<Rightarrow> Inr (concatenate scar default_genes_db st))"






text \<open>
  The layout the specification gives for the plasmid: segments joined with one spacer
  between neighbours.
\<close>

fun scar_join :: "string \<Rightarrow> string list \<Rightarrow> string" where
  "scar_join scar [] = []"
| "scar_join scar [seg] = seg"
| "scar_join scar (seg # next_seg # rest) = seg @ scar @ scar_join scar (next_seg # rest)"


text \<open>
  What one pass of the sorting loop does with a key, as functions of the key alone: the bin
  it lands in and the message it prints. They are used to state the loop's result in
  closed form.
\<close>

definition to_markers :: "dict \<Rightarrow> string \<Rightarrow> bool" where
  "to_markers markers_db key =
     (key \<noteq> ORI_KEY_IN_DESIGN \<and> markers_db key \<noteq> None \<and> \<not> endswith key ''_site'')"

definition to_mcs :: "dict \<Rightarrow> string \<Rightarrow> bool" where
  "to_mcs markers_db key =
     (key \<noteq> ORI_KEY_IN_DESIGN \<and> markers_db key \<noteq> None \<and> endswith key ''_site'')"

definition key_message :: "dict \<Rightarrow> string \<Rightarrow> event" where
  "key_message markers_db key =
     (if key = ORI_KEY_IN_DESIGN then FoundOri key
      else if markers_db key = None then MissingWarning key
      else if endswith key ''_site'' then ScheduledMCS key
      else ScheduledMarker key)"

definition default_messages :: "(string \<times> string) list \<Rightarrow> event list" where
  "default_messages default_genes_db =
     (if default_genes_db \<noteq> [] then
        AddingDefaultGenes # map (\<lambda>g. AddedDefaultGene (fst g)) default_genes_db
      else [])"


section \<open>Slices as \<open>take\<close> and \<open>drop\<close>\<close>

lemma py_slice_from: "py_slice xs (Some i) None = drop (py_bound (length xs) i) xs"
  by (simp add: py_slice_def)

lemma py_slice_to: "py_slice xs None (Some j) = take (py_bound (length xs) j) xs"
  by (simp add: py_slice_def)

lemma py_slice_both:
  "py_slice xs (Some i) (Some j) =
     take (py_bound (length xs) j - py_bound (length xs) i) (drop (py_bound (length xs) i) xs)"
  by (simp add: py_slice_def Let_def)

lemma window_wrap_low:
  fixes s :: "'a list"
  assumes "0 \<le> idx" "idx < h" "idx + h \<le> int (length s)"
  shows "py_slice s (Some (idx - h)) None @ py_slice s None (Some (idx + h))
         = drop (length s - nat (h - idx)) s @ take (nat (idx + h)) s"
proof -
  have "py_bound (length s) (idx - h) = length s - nat (h - idx)"
    using assms by (auto simp: py_bound_def)
  moreover have "py_bound (length s) (idx + h) = nat (idx + h)"
    using assms by (auto simp: py_bound_def)
  ultimately show ?thesis by (simp add: py_slice_from py_slice_to)
qed

lemma window_wrap_high:
  fixes s :: "'a list"
  assumes "h \<le> idx" "idx < int (length s)" "int (length s) < idx + h"
  shows "py_slice s (Some (idx - h)) None @ py_slice s None (Some (idx + h - int (length s)))
         = drop (nat (idx - h)) s @ take (nat (idx + h) - length s) s"
proof -
  have "py_bound (length s) (idx - h) = nat (idx - h)"
    using assms by (auto simp: py_bound_def)
  moreover have "py_bound (length s) (idx + h - int (length s)) = nat (idx + h) - length s"
    using assms by (auto simp: py_bound_def)
  ultimately show ?thesis by (simp add: py_slice_from py_slice_to)
qed

lemma window_plain:
  fixes s :: "'a list"
  assumes "0 \<le> h" "h \<le> idx" "idx + h \<le> int (length s)"
  shows "py_slice s (Some (idx - h)) (Some (idx + h))
         = take (nat (2 * h)) (drop (nat (idx - h)) s)"
proof -
  have "py_bound (length s) (idx - h) = nat (idx - h)"
    using assms by (auto simp: py_bound_def)
  moreover have "py_bound (length s) (idx + h) = nat (idx + h)"
    using assms by (auto simp: py_bound_def)
  moreover have "nat (idx + h) - nat (idx - h) = nat (2 * h)" using assms by linarith
  ultimately show ?thesis by (simp add: py_slice_both)
qed


section \<open>Circular windows\<close>

lemma length_circular_window [simp]: "length (circular_window xs a k) = k"
  by (simp add: circular_window_def)

lemma nth_circular_window:
  "j < k \<Longrightarrow> circular_window xs a k ! j = xs ! nat ((a + int j) mod int (length xs))"
  by (simp add: circular_window_def)

lemma circular_window_add:
  "circular_window xs a (m + n) = circular_window xs a m @ circular_window xs (a + int m) n"
proof (rule nth_equalityI)
  show "length (circular_window xs a (m + n))
        = length (circular_window xs a m @ circular_window xs (a + int m) n)"
    by simp
next
  fix k assume "k < length (circular_window xs a (m + n))"
  then have k: "k < m + n" by simp
  show "circular_window xs a (m + n) ! k
        = (circular_window xs a m @ circular_window xs (a + int m) n) ! k"
  proof (cases "k < m")
    case True
    then show ?thesis using k by (simp add: nth_append nth_circular_window)
  next
    case False
    then have "a + int m + int (k - m) = a + int k" by simp
    then show ?thesis using k False by (simp add: nth_append nth_circular_window)
  qed
qed

lemma mod_shift_up:
  fixes x n :: int
  assumes "x < 0" "0 \<le> x + n"
  shows "x mod n = x + n"
proof -
  have "(x + n) mod n = x + n" using assms by (intro mod_pos_pos_trivial) linarith+
  then show ?thesis by simp
qed

lemma mod_shift_down:
  fixes x n :: int
  assumes "n \<le> x" "x - n < n"
  shows "x mod n = x - n"
proof -
  have "(x - n) mod n = x - n" using assms by (intro mod_pos_pos_trivial) linarith+
  then show ?thesis by simp
qed

lemma circ_low:
  fixes s :: "'a list"
  assumes "0 \<le> idx" "idx < h" "2 * h \<le> int (length s)"
  shows "drop (length s - nat (h - idx)) s @ take (nat (idx + h)) s
         = circular_window s (idx - h) (nat (2 * h))"
proof (rule nth_equalityI)
  have a: "length (drop (length s - nat (h - idx)) s) = nat (h - idx)"
    using assms by simp
  have b: "length (take (nat (idx + h)) s) = nat (idx + h)"
    using assms by simp
  show len: "length (drop (length s - nat (h - idx)) s @ take (nat (idx + h)) s)
        = length (circular_window s (idx - h) (nat (2 * h)))"
    unfolding length_append a b using assms by simp
  fix k assume "k < length (drop (length s - nat (h - idx)) s @ take (nat (idx + h)) s)"
  then have k: "k < nat (2 * h)" unfolding len by simp
  show "(drop (length s - nat (h - idx)) s @ take (nat (idx + h)) s) ! k
        = circular_window s (idx - h) (nat (2 * h)) ! k"
  proof (cases "k < nat (h - idx)")
    case True
    have "(idx - h + int k) mod int (length s) = idx - h + int k + int (length s)"
      using assms True by (intro mod_shift_up) linarith+
    moreover have "nat (idx - h + int k + int (length s)) = length s - nat (h - idx) + k"
      using assms True by linarith
    moreover have "(drop (length s - nat (h - idx)) s @ take (nat (idx + h)) s) ! k
          = s ! (length s - nat (h - idx) + k)"
      using True a by (simp add: nth_append)
    ultimately show ?thesis using k by (simp add: nth_circular_window)
  next
    case False
    have "(idx - h + int k) mod int (length s) = idx - h + int k"
      using assms k False by (intro mod_pos_pos_trivial) linarith+
    moreover have "nat (idx - h + int k) = k - nat (h - idx)"
      using assms False by linarith
    moreover have "k - nat (h - idx) < nat (idx + h)" using assms k False by linarith
    then have "(drop (length s - nat (h - idx)) s @ take (nat (idx + h)) s) ! k
          = s ! (k - nat (h - idx))"
      using False a by (simp add: nth_append)
    ultimately show ?thesis using k by (simp add: nth_circular_window)
  qed
qed

lemma circ_high:
  fixes s :: "'a list"
  assumes "h \<le> idx" "idx < int (length s)" "int (length s) < idx + h" "2 * h \<le> int (length s)"
  shows "drop (nat (idx - h)) s @ take (nat (idx + h) - length s) s
         = circular_window s (idx - h) (nat (2 * h))"
proof (rule nth_equalityI)
  have a: "length (drop (nat (idx - h)) s) = length s - nat (idx - h)"
    by simp
  have b: "length (take (nat (idx + h) - length s) s) = nat (idx + h) - length s"
    using assms by simp
  show len: "length (drop (nat (idx - h)) s @ take (nat (idx + h) - length s) s)
        = length (circular_window s (idx - h) (nat (2 * h)))"
    unfolding length_append a b using assms by simp
  fix k assume "k < length (drop (nat (idx - h)) s @ take (nat (idx + h) - length s) s)"
  then have k: "k < nat (2 * h)" unfolding len by simp
  show "(drop (nat (idx - h)) s @ take (nat (idx + h) - length s) s) ! k
        = circular_window s (idx - h) (nat (2 * h)) ! k"
  proof (cases "k < length s - nat (idx - h)")
    case True
    have "(idx - h + int k) mod int (length s) = idx - h + int k"
      using assms True by (intro mod_pos_pos_trivial) linarith+
    moreover have "nat (idx - h + int k) = nat (idx - h) + k"
      using assms by linarith
    moreover have "(drop (nat (idx - h)) s @ take (nat (idx + h) - length s) s) ! k
          = s ! (nat (idx - h) + k)"
      using True a by (simp add: nth_append)
    ultimately show ?thesis using k by (simp add: nth_circular_window)
  next
    case False
    have "(idx - h + int k) mod int (length s) = idx - h + int k - int (length s)"
      using assms k False by (intro mod_shift_down) linarith+
    moreover have "nat (idx - h + int k - int (length s)) = k - (length s - nat (idx - h))"
      using assms False by linarith
    moreover have "k - (length s - nat (idx - h)) < nat (idx + h) - length s"
      using assms k False by linarith
    then have "(drop (nat (idx - h)) s @ take (nat (idx + h) - length s) s) ! k
          = s ! (k - (length s - nat (idx - h)))"
      using False a by (simp add: nth_append)
    ultimately show ?thesis using k by (simp add: nth_circular_window)
  qed
qed

lemma circ_plain:
  fixes s :: "'a list"
  assumes "0 \<le> h" "h \<le> idx" "idx + h \<le> int (length s)"
  shows "take (nat (2 * h)) (drop (nat (idx - h)) s)
         = circular_window s (idx - h) (nat (2 * h))"
proof (rule nth_equalityI)
  show len: "length (take (nat (2 * h)) (drop (nat (idx - h)) s))
        = length (circular_window s (idx - h) (nat (2 * h)))"
    using assms by simp
  fix k assume "k < length (take (nat (2 * h)) (drop (nat (idx - h)) s))"
  then have k: "k < nat (2 * h)" unfolding len by simp
  have "(idx - h + int k) mod int (length s) = idx - h + int k"
    using assms k by (intro mod_pos_pos_trivial) linarith+
  moreover have "nat (idx - h + int k) = nat (idx - h) + k"
    using assms by linarith
  moreover have "nat (idx - h) \<le> length s" using assms by linarith
  ultimately show "take (nat (2 * h)) (drop (nat (idx - h)) s) ! k
        = circular_window s (idx - h) (nat (2 * h)) ! k"
    using k by (simp add: nth_circular_window)
qed


section \<open>The skew scan\<close>

lemma length_skews_from [simp]: "length (skews_from sk s) = length s"
  by (induction s arbitrary: sk) simp_all

lemma scan_loop_keep:
  "\<forall>x\<in>set (skews_from sk s). m \<le> x \<Longrightarrow>
     snd (scan_loop i s (sk, m, idx)) = (m, idx)"
proof (induction s arbitrary: i sk)
  case Nil
  show ?case by simp
next
  case (Cons b r)
  from Cons.prems have "m \<le> skew_step b sk"
    and "\<forall>x\<in>set (skews_from (skew_step b sk) r). m \<le> x"
    by simp_all
  then show ?case using Cons.IH [of "skew_step b sk" "i + 1"] by (simp add: Let_def)
qed

lemma scan_loop_first_min:
  "\<exists>x\<in>set (skews_from sk s). x < m \<Longrightarrow>
     \<exists>j<length s.
        snd (scan_loop i s (sk, m, idx)) = (skews_from sk s ! j, i + int j)
      \<and> skews_from sk s ! j < m
      \<and> (\<forall>x\<in>set (skews_from sk s). skews_from sk s ! j \<le> x)
      \<and> (\<forall>k<j. skews_from sk s ! j < skews_from sk s ! k)"
proof (induction s arbitrary: i sk m idx)
  case Nil
  then show ?case by simp
next
  case (Cons b r)
  let ?sk = "skew_step b sk"
  let ?R = "skews_from ?sk r"
  show ?case
  proof (cases "?sk < m")
    case True
    note lt = True
    show ?thesis
    proof (cases "\<exists>x\<in>set ?R. x < ?sk")
      case True
      from Cons.IH [OF True, of "i + 1" i]
      obtain j where j: "j < length r"
        "snd (scan_loop (i + 1) r (?sk, ?sk, i)) = (?R ! j, i + 1 + int j)"
        "?R ! j < ?sk" "\<forall>x\<in>set ?R. ?R ! j \<le> x" "\<forall>k<j. ?R ! j < ?R ! k"
        by blast
      have "\<forall>k<Suc j. (?sk # ?R) ! Suc j < (?sk # ?R) ! k"
        using j(3,5) by (auto simp: less_Suc_eq_0_disj)
      with j lt show ?thesis
        by (intro exI [of _ "Suc j"]) (auto simp: Let_def)
    next
      case False
      then have "\<forall>x\<in>set ?R. ?sk \<le> x" by auto
      from scan_loop_keep [OF this, of "i + 1" i] lt this show ?thesis
        by (intro exI [of _ 0]) (auto simp: Let_def)
    qed
  next
    case False
    with Cons.prems have ex: "\<exists>x\<in>set ?R. x < m" by auto
    from Cons.IH [OF ex, of "i + 1" idx]
    obtain j where j: "j < length r"
      "snd (scan_loop (i + 1) r (?sk, m, idx)) = (?R ! j, i + 1 + int j)"
      "?R ! j < m" "\<forall>x\<in>set ?R. ?R ! j \<le> x" "\<forall>k<j. ?R ! j < ?R ! k"
      by blast
    have "\<forall>k<Suc j. (?sk # ?R) ! Suc j < (?sk # ?R) ! k"
      using j(3,5) False by (auto simp: less_Suc_eq_0_disj)
    with j False show ?thesis
      by (intro exI [of _ "Suc j"]) (auto simp: Let_def)
  qed
qed

lemma get_gc_skew_ori_idx:
  "snd (get_gc_skew_ori s w) = snd (snd (scan_loop 0 s (0, 0, 0)))"
  by (simp add: get_gc_skew_ori_def Let_def split: prod.splits)

section \<open>The extracted window\<close>

lemma scan_idx_cases:
  "snd (get_gc_skew_ori s w) = 0 \<or>
   (0 < snd (get_gc_skew_ori s w) \<and> snd (get_gc_skew_ori s w) < int (length s))"
proof (cases "\<exists>x\<in>set (skews_from 0 s). x < 0")
  case True
  from scan_loop_first_min [OF True, of 0 0]
  obtain j where "j < length s" "snd (scan_loop 0 s (0, 0, 0)) = (skews_from 0 s ! j, 0 + int j)"
    by blast
  then show ?thesis by (cases j) (simp_all add: get_gc_skew_ori_idx)
next
  case False
  then have "\<forall>x\<in>set (skews_from 0 s). 0 \<le> x" by auto
  from scan_loop_keep [OF this, of 0 0] show ?thesis by (simp add: get_gc_skew_ori_idx)
qed

lemma get_gc_skew_ori_window:
  "fst (get_gc_skew_ori s w) =
     (let idx = snd (get_gc_skew_ori s w); h = w div 2 in
      if idx - h < 0 then
        py_slice s (Some (idx - h)) None @ py_slice s None (Some (idx + h))
      else if idx + h > int (length s) then
        py_slice s (Some (idx - h)) None @ py_slice s None (Some (idx + h - int (length s)))
      else py_slice s (Some (idx - h)) (Some (idx + h)))"
  by (simp add: get_gc_skew_ori_def Let_def split: prod.splits)

lemma window_circular:
  assumes "0 \<le> w" "2 * (w div 2) \<le> int (length s)"
  shows "fst (get_gc_skew_ori s w)
         = circular_window s (snd (get_gc_skew_ori s w) - w div 2) (nat (2 * (w div 2)))"
proof -
  let ?idx = "snd (get_gc_skew_ori s w)"
  let ?h = "w div 2"
  have h: "0 \<le> ?h" using assms(1) by simp
  have idx: "?idx = 0 \<or> (0 < ?idx \<and> ?idx < int (length s))" by (rule scan_idx_cases)
  then have idx0: "0 \<le> ?idx" by auto
  consider (low) "?idx - ?h < 0"
    | (high) "\<not> ?idx - ?h < 0" "?idx + ?h > int (length s)"
    | (plain) "\<not> ?idx - ?h < 0" "\<not> ?idx + ?h > int (length s)"
    by blast
  then show ?thesis
  proof cases
    case low
    then have lt: "?idx < ?h" by simp
    then have le: "?idx + ?h \<le> int (length s)" using assms(2) by linarith
    have "fst (get_gc_skew_ori s w)
          = py_slice s (Some (?idx - ?h)) None @ py_slice s None (Some (?idx + ?h))"
      using low by (subst get_gc_skew_ori_window) (simp add: Let_def)
    also have "\<dots> = drop (length s - nat (?h - ?idx)) s @ take (nat (?idx + ?h)) s"
      by (rule window_wrap_low [OF idx0 lt le])
    also have "\<dots> = circular_window s (?idx - ?h) (nat (2 * ?h))"
      by (rule circ_low [OF idx0 lt assms(2)])
    finally show ?thesis .
  next
    case high
    then have ge: "?h \<le> ?idx" by simp
    have lt: "?idx < int (length s)" using idx high h by linarith
    have "fst (get_gc_skew_ori s w)
          = py_slice s (Some (?idx - ?h)) None
            @ py_slice s None (Some (?idx + ?h - int (length s)))"
      using high by (subst get_gc_skew_ori_window) (simp add: Let_def)
    also have "\<dots> = drop (nat (?idx - ?h)) s @ take (nat (?idx + ?h) - length s) s"
      by (rule window_wrap_high [OF ge lt high(2)])
    also have "\<dots> = circular_window s (?idx - ?h) (nat (2 * ?h))"
      by (rule circ_high [OF ge lt high(2) assms(2)])
    finally show ?thesis .
  next
    case plain
    then have ge: "?h \<le> ?idx" and le: "?idx + ?h \<le> int (length s)" by simp_all
    have "fst (get_gc_skew_ori s w) = py_slice s (Some (?idx - ?h)) (Some (?idx + ?h))"
      using plain by (subst get_gc_skew_ori_window) (simp add: Let_def)
    also have "\<dots> = take (nat (2 * ?h)) (drop (nat (?idx - ?h)) s)"
      by (rule window_plain [OF h ge le])
    also have "\<dots> = circular_window s (?idx - ?h) (nat (2 * ?h))"
      by (rule circ_plain [OF h ge le])
    finally show ?thesis .
  qed
qed

section \<open>Claims about the origin locator\<close>

text \<open>
  C1, as stated, does not hold: on \<open>GGGGCCCCAAAA\<close> with window size 4 the function does
  not return the window \<open>CCAA\<close> with index 7.
\<close>

theorem gc_skew_scenario_refuted:
  "get_gc_skew_ori ''GGGGCCCCAAAA'' 4 \<noteq> (''CCAA'', 7)"
  by (simp add: get_gc_skew_ori_def skew_step_def py_slice_def py_bound_def Let_def)

text \<open>
  C1 (amended): the running skew of \<open>GGGGCCCCAAAA\<close> is 1,2,3,4,3,2,1,0,0,0,0,0; it never
  drops strictly below the initial minimum 0, so the returned index is the initial 0, and
  with window size 4 the window is the wrap-around \<open>sequence[-2:] + sequence[:2]\<close>, that is
  \<open>AAGG\<close>.
\<close>

theorem gc_skew_scenario:
  "running_skew ''GGGGCCCCAAAA'' = [1, 2, 3, 4, 3, 2, 1, 0, 0, 0, 0, 0]
   \<and> get_gc_skew_ori ''GGGGCCCCAAAA'' 4 = (''AAGG'', 0)
   \<and> ''AAGG'' = py_slice ''GGGGCCCCAAAA'' (Some (- 2)) None
                 @ py_slice ''GGGGCCCCAAAA'' None (Some 2)"
  by (simp add: running_skew_def get_gc_skew_ori_def skew_step_def py_slice_def py_bound_def Let_def)

text \<open>
  C2, as stated, does not hold: the running skew of \<open>GCGC\<close> is 1,0,1,0, its minimum 0 is
  attained at positions 1 and 3, and the returned index is 0, where the skew is 1.
\<close>

theorem first_minimum_refuted:
  "running_skew ''GCGC'' = [1, 0, 1, 0]
   \<and> snd (get_gc_skew_ori ''GCGC'' 600) = 0
   \<and> running_skew ''GCGC'' ! nat (snd (get_gc_skew_ori ''GCGC'' 600))
       \<noteq> Min (set (running_skew ''GCGC''))"
  by (simp add: running_skew_def get_gc_skew_ori_def skew_step_def py_slice_def py_bound_def Let_def)

text \<open>
  C2 (amended): when the running skew drops below 0 somewhere, the returned index is the
  first position where the running skew attains its minimum (every earlier position has a
  strictly larger skew), however many positions attain it; when the running skew never
  drops below 0, the returned index is the initial 0.
\<close>

theorem first_negative_minimum:
  "((\<exists>x\<in>set (running_skew s). x < 0) \<longrightarrow>
      (let sk = running_skew s; idx = snd (get_gc_skew_ori s w) in
         0 \<le> idx \<and> nat idx < length s
       \<and> sk ! nat idx = Min (set sk)
       \<and> (\<forall>k<nat idx. sk ! nat idx < sk ! k)))
   \<and> ((\<forall>x\<in>set (running_skew s). 0 \<le> x) \<longrightarrow> snd (get_gc_skew_ori s w) = 0)"
proof (intro conjI impI)
  assume "\<exists>x\<in>set (running_skew s). x < 0"
  then have ex: "\<exists>x\<in>set (skews_from 0 s). x < 0" by (simp add: running_skew_def)
  from scan_loop_first_min [OF ex, of 0 0]
  obtain j where j: "j < length s"
    "snd (scan_loop 0 s (0, 0, 0)) = (skews_from 0 s ! j, 0 + int j)"
    "\<forall>x\<in>set (skews_from 0 s). skews_from 0 s ! j \<le> x"
    "\<forall>k<j. skews_from 0 s ! j < skews_from 0 s ! k"
    by blast
  have idx: "snd (get_gc_skew_ori s w) = int j"
    using j(2) by (simp add: get_gc_skew_ori_idx)
  have "skews_from 0 s ! j \<in> set (skews_from 0 s)" using j(1) by simp
  then have "Min (set (skews_from 0 s)) = skews_from 0 s ! j"
    using j(3) by (intro Min_eqI) auto
  then show "let sk = running_skew s; idx = snd (get_gc_skew_ori s w) in
         0 \<le> idx \<and> nat idx < length s
       \<and> sk ! nat idx = Min (set sk)
       \<and> (\<forall>k<nat idx. sk ! nat idx < sk ! k)"
    using j(1,4) idx by (simp add: running_skew_def Let_def)
next
  assume "\<forall>x\<in>set (running_skew s). 0 \<le> x"
  then have "\<forall>x\<in>set (skews_from 0 s). 0 \<le> x" by (simp add: running_skew_def)
  from scan_loop_keep [OF this, of 0 0] show "snd (get_gc_skew_ori s w) = 0"
    by (simp add: get_gc_skew_ori_idx)
qed

text \<open>
  C2, witness: \<open>ACGCA\<close> has running skew 0,-1,0,-1,-1, whose minimum -1 is attained at
  positions 1, 3 and 4, and the returned index is 1; \<open>GCGC\<close> never drops below 0 and the
  returned index is 0.
\<close>

theorem first_negative_minimum_witness:
  "(\<exists>x\<in>set (running_skew ''ACGCA''). x < 0)
   \<and> running_skew ''ACGCA'' = [0, - 1, 0, - 1, - 1]
   \<and> snd (get_gc_skew_ori ''ACGCA'' 600) = 1
   \<and> running_skew ''ACGCA'' ! 1 = Min (set (running_skew ''ACGCA''))
   \<and> Min (set (running_skew ''GCGC'')) = 0
   \<and> snd (get_gc_skew_ori ''GCGC'' 600) = 0"
  using first_negative_minimum [of "''ACGCA''" 600] first_negative_minimum [of "''GCGC''" 600]
  by (simp add: running_skew_def get_gc_skew_ori_def skew_step_def py_slice_def py_bound_def Let_def)

text \<open>A sequence with no G and no C leaves the index at 0.\<close>

lemma skews_from_neutral:
  "\<forall>b\<in>set s. b \<noteq> CHR ''G'' \<and> b \<noteq> CHR ''C'' \<Longrightarrow> set (skews_from sk s) \<subseteq> {sk}"
  by (induction s arbitrary: sk) (auto simp: skew_step_def)

lemma neutral_index:
  assumes "\<forall>b\<in>set s. b \<noteq> CHR ''G'' \<and> b \<noteq> CHR ''C''"
  shows "snd (get_gc_skew_ori s w) = 0"
proof -
  from skews_from_neutral [OF assms, of 0] have "\<forall>x\<in>set (skews_from 0 s). 0 \<le> x" by auto
  from scan_loop_keep [OF this, of 0 0] show ?thesis by (simp add: get_gc_skew_ori_idx)
qed

text \<open>
  C4, as stated, does not hold: on \<open>AAAACAAAA\<close> (minimum at index 4) with window size 3
  the window is \<open>AC\<close>, one base before the index and one base from the index on, not the
  three bases \<open>sequence[3:6]\<close> of "one before, two after".
\<close>

theorem odd_window_refuted:
  "get_gc_skew_ori ''AAAACAAAA'' 3 = (''AC'', 4)
   \<and> fst (get_gc_skew_ori ''AAAACAAAA'' 3)
       \<noteq> py_slice ''AAAACAAAA'' (Some (4 - 3 div 2)) (Some (4 + (3 div 2 + 1)))"
  by (simp add: get_gc_skew_ori_def skew_step_def py_slice_def py_bound_def Let_def)

text \<open>
  C4 (amended): for every odd window size \<open>w\<close> (on a sequence of at least \<open>w - 1\<close>
  bases) the window is, on the circular sequence, the \<open>w div 2\<close> bases before the
  minimum-skew index followed by the \<open>w div 2\<close> bases from the index on; it has
  \<open>w - 1\<close> bases (size 601: 300 before, 300 from the index on).
\<close>

theorem odd_window_layout:
  assumes "odd w" "0 < w" "w - 1 \<le> int (length s)"
  shows "fst (get_gc_skew_ori s w)
           = circular_window s (snd (get_gc_skew_ori s w) - w div 2) (nat (w div 2))
             @ circular_window s (snd (get_gc_skew_ori s w)) (nat (w div 2))
         \<and> length (fst (get_gc_skew_ori s w)) = nat (w - 1)"
proof -
  let ?idx = "snd (get_gc_skew_ori s w)"
  have two: "2 * (w div 2) = w - 1" using assms(1) by presburger
  have h: "0 \<le> w div 2" using assms(2) by simp
  have "fst (get_gc_skew_ori s w) = circular_window s (?idx - w div 2) (nat (2 * (w div 2)))"
    using assms by (intro window_circular) (simp_all add: two)
  moreover have "nat (2 * (w div 2)) = nat (w div 2) + nat (w div 2)" using h by linarith
  moreover have "?idx - w div 2 + int (nat (w div 2)) = ?idx" using h by simp
  ultimately have "fst (get_gc_skew_ori s w)
           = circular_window s (?idx - w div 2) (nat (w div 2))
             @ circular_window s ?idx (nat (w div 2))"
    by (simp add: circular_window_add)
  moreover have "nat (w div 2) + nat (w div 2) = nat (w - 1)" using h two by linarith
  ultimately show ?thesis by simp
qed

text \<open>C4, witness: window size 3 on \<open>AAAACAAAA\<close>.\<close>

theorem odd_window_layout_witness:
  "odd (3 :: int) \<and> (0 :: int) < 3 \<and> (3 :: int) - 1 \<le> int (length ''AAAACAAAA'')
   \<and> snd (get_gc_skew_ori ''AAAACAAAA'' 3) = 4
   \<and> fst (get_gc_skew_ori ''AAAACAAAA'' 3)
       = circular_window ''AAAACAAAA'' 3 1 @ circular_window ''AAAACAAAA'' 4 1
   \<and> length (fst (get_gc_skew_ori ''AAAACAAAA'' 3)) = 2"
proof -
  have idx: "snd (get_gc_skew_ori ''AAAACAAAA'' 3) = 4"
    by (simp add: get_gc_skew_ori_def skew_step_def Let_def)
  have "odd (3 :: int)" "(0 :: int) < 3" "(3 :: int) - 1 \<le> int (length ''AAAACAAAA'')"
    by simp_all
  from odd_window_layout [OF this] idx show ?thesis by simp
qed

text \<open>
  C5: for window size 600 and a sequence of at least 600 bases, when the minimum-skew index
  lies in \<open>[0, 299]\<close> or in \<open>[length - 299, length - 1]\<close>, the window wraps around the
  boundary (a non-empty tail of the sequence followed by a non-empty head of it) and has
  exactly 600 bases.
\<close>

theorem wraparound_window:
  assumes "600 \<le> length s"
    and "(0 \<le> snd (get_gc_skew_ori s 600) \<and> snd (get_gc_skew_ori s 600) \<le> 299)
         \<or> (int (length s) - 299 \<le> snd (get_gc_skew_ori s 600)
            \<and> snd (get_gc_skew_ori s 600) \<le> int (length s) - 1)"
  shows "length (fst (get_gc_skew_ori s 600)) = 600
         \<and> (\<exists>tail head. tail \<noteq> [] \<and> head \<noteq> [] \<and> suffix tail s \<and> prefix head s
              \<and> fst (get_gc_skew_ori s 600) = tail @ head)"
proof -
  let ?idx = "snd (get_gc_skew_ori s 600)"
  from assms(2) show ?thesis
  proof
    assume low: "0 \<le> ?idx \<and> ?idx \<le> 299"
    then have a: "0 \<le> ?idx" and b: "?idx < 300" and c: "?idx + 300 \<le> int (length s)"
      using assms(1) by simp_all
    have "fst (get_gc_skew_ori s 600)
          = py_slice s (Some (?idx - 300)) None @ py_slice s None (Some (?idx + 300))"
      using b by (subst get_gc_skew_ori_window) (simp add: Let_def)
    also have "\<dots> = drop (length s - nat (300 - ?idx)) s @ take (nat (?idx + 300)) s"
      by (rule window_wrap_low [OF a b c])
    finally have win: "fst (get_gc_skew_ori s 600)
          = drop (length s - nat (300 - ?idx)) s @ take (nat (?idx + 300)) s" .
    have "length (fst (get_gc_skew_ori s 600)) = 600"
      unfolding win using a b c by simp
    moreover have "drop (length s - nat (300 - ?idx)) s \<noteq> []" using a b c by simp
    moreover have "take (nat (?idx + 300)) s \<noteq> []" using a b c assms(1) by auto
    moreover have "suffix (drop (length s - nat (300 - ?idx)) s) s" by (rule suffix_drop)
    moreover have "prefix (take (nat (?idx + 300)) s) s" by (rule take_is_prefix)
    ultimately show ?thesis using win by blast
  next
    assume high: "int (length s) - 299 \<le> ?idx \<and> ?idx \<le> int (length s) - 1"
    then have a: "300 \<le> ?idx" and b: "?idx < int (length s)"
      and c: "int (length s) < ?idx + 300"
      using assms(1) by simp_all
    have "fst (get_gc_skew_ori s 600)
          = py_slice s (Some (?idx - 300)) None
            @ py_slice s None (Some (?idx + 300 - int (length s)))"
      using a c by (subst get_gc_skew_ori_window) (simp add: Let_def)
    also have "\<dots> = drop (nat (?idx - 300)) s @ take (nat (?idx + 300) - length s) s"
      by (rule window_wrap_high [OF a b c])
    finally have win: "fst (get_gc_skew_ori s 600)
          = drop (nat (?idx - 300)) s @ take (nat (?idx + 300) - length s) s" .
    have "length (fst (get_gc_skew_ori s 600)) = 600"
      unfolding win using a b c by simp
    moreover have "drop (nat (?idx - 300)) s \<noteq> []" using a b c by simp
    moreover have "take (nat (?idx + 300) - length s) s \<noteq> []" using a b c assms(1) by auto
    moreover have "suffix (drop (nat (?idx - 300)) s) s" by (rule suffix_drop)
    moreover have "prefix (take (nat (?idx + 300) - length s) s) s" by (rule take_is_prefix)
    ultimately show ?thesis using win by blast
  qed
qed

text \<open>C5, witness: 600 bases \<open>A\<close>, minimum-skew index 0.\<close>

theorem wraparound_window_witness:
  "600 \<le> length (replicate 600 CHR ''A'')
   \<and> snd (get_gc_skew_ori (replicate 600 CHR ''A'') 600) = 0
   \<and> length (fst (get_gc_skew_ori (replicate 600 CHR ''A'') 600)) = 600"
proof -
  have idx: "snd (get_gc_skew_ori (replicate 600 CHR ''A'') 600) = 0"
    by (rule neutral_index) simp
  have len: "600 \<le> length (replicate 600 CHR ''A'')" by simp
  from wraparound_window [OF len] idx show ?thesis by simp
qed

section \<open>The assembly in closed form\<close>

lemma classify_key_closed:
  "classify_key f db key st =
     Inr (st\<lparr>ori_part := (if key = ORI_KEY_IN_DESIGN then f else ori_part st),
            marker_parts := marker_parts st @ map (\<lambda>k. the (db k)) (filter (to_markers db) [key]),
            mcs_parts := mcs_parts st @ map (\<lambda>k. the (db k)) (filter (to_mcs db) [key]),
            printed := printed st @ [key_message db key]\<rparr>)"
  by (cases "db key")
     (simp_all add: classify_key_def dict_contains_def dict_get_def to_markers_def to_mcs_def
        key_message_def)

lemma classify_loop_closed:
  "classify_loop f db keys st =
     Inr (st\<lparr>ori_part := (if ORI_KEY_IN_DESIGN \<in> set keys then f else ori_part st),
            marker_parts := marker_parts st @ map (\<lambda>k. the (db k)) (filter (to_markers db) keys),
            mcs_parts := mcs_parts st @ map (\<lambda>k. the (db k)) (filter (to_mcs db) keys),
            printed := printed st @ map (key_message db) keys\<rparr>)"
proof (induction keys arbitrary: st)
  case Nil
  show ?case by simp
next
  case (Cons key keys)
  show ?case
    by (simp add: classify_key_closed Cons.IH to_markers_def to_mcs_def)
qed

lemma append_parts_append:
  "append_parts scar (xs @ ys) final = append_parts scar ys (append_parts scar xs final)"
  by (induction xs arbitrary: final) simp_all

lemma append_default_genes_closed:
  "append_default_genes scar dg (final, pr) =
     (append_parts scar (map snd dg) final, pr @ map (\<lambda>g. AddedDefaultGene (fst g)) dg)"
  by (induction dg arbitrary: final pr) auto

lemma concatenate_closed:
  "concatenate scar dg st =
     (append_parts scar (marker_parts st @ mcs_parts st @ map snd dg) (ori_part st),
      printed st @ default_messages dg)"
  by (simp add: concatenate_def Let_def append_default_genes_closed append_parts_append
        default_messages_def)

lemma assemble_closed:
  "assemble scar f db dg keys =
     Inr (append_parts scar
            (map (\<lambda>k. the (db k)) (filter (to_markers db) keys)
             @ map (\<lambda>k. the (db k)) (filter (to_mcs db) keys) @ map snd dg)
            (if ORI_KEY_IN_DESIGN \<in> set keys then f else []),
          map (key_message db) keys @ default_messages dg)"
  by (simp add: assemble_def classify_loop_closed concatenate_closed initial_parts_def)

lemma append_parts_nonempty:
  "final \<noteq> [] \<Longrightarrow> append_parts scar parts final = final @ concat (map (\<lambda>p. scar @ p) parts)"
  by (induction parts arbitrary: final) simp_all

lemma scar_join_Cons: "scar_join scar (seg # segs) = seg @ concat (map (\<lambda>p. scar @ p) segs)"
  by (induction segs arbitrary: seg) simp_all

lemma append_parts_join:
  "append_parts scar parts final = scar_join scar (dropWhile (\<lambda>p. p = []) (final # parts))"
proof (induction parts arbitrary: final)
  case Nil
  show ?case by simp
next
  case (Cons p ps)
  show ?case
  proof (cases "final = []")
    case True
    then show ?thesis using Cons.IH [of p] by simp
  next
    case False
    then show ?thesis by (simp add: append_parts_nonempty scar_join_Cons)
  qed
qed

section \<open>Spacers between segments\<close>

lemma scar_join_append:
  "scar_join scar (xs @ ys) =
     (if xs = [] then scar_join scar ys
      else if ys = [] then scar_join scar xs
      else scar_join scar xs @ scar @ scar_join scar ys)"
proof (cases xs)
  case Nil
  then show ?thesis by simp
next
  case (Cons x xs')
  show ?thesis
  proof (cases ys)
    case Nil
    then show ?thesis by simp
  next
    case (Cons y ys')
    then show ?thesis using \<open>xs = x # xs'\<close> by (simp add: scar_join_Cons)
  qed
qed

lemma scar_join_eq_Nil:
  "\<forall>p\<in>set segs. p \<noteq> [] \<Longrightarrow> scar_join scar segs = [] \<longleftrightarrow> segs = []"
  by (cases segs) (simp_all add: scar_join_Cons)

lemma dropWhile_empty_filter:
  "\<forall>p\<in>set parts. p \<noteq> [] \<Longrightarrow>
     dropWhile (\<lambda>p. p = []) (final # parts) = filter (\<lambda>p. p \<noteq> []) (final # parts)"
proof -
  assume a: "\<forall>p\<in>set parts. p \<noteq> []"
  then have f: "filter (\<lambda>p. p \<noteq> []) parts = parts" by (simp add: filter_id_conv)
  have "dropWhile (\<lambda>p. p = []) parts = parts" using a by (cases parts) simp_all
  then show ?thesis using f by simp
qed

lemma scar_join_adjacent:
  "sublist (A @ scar @ B) (scar_join scar (pre @ A # B # post))"
proof (cases pre)
  case Nil
  have "scar_join scar (A # B # post) = [] @ (A @ scar @ B) @ concat (map (\<lambda>p. scar @ p) post)"
    by (simp add: scar_join_Cons)
  then show ?thesis unfolding sublist_def Nil by (metis append_Nil)
next
  case (Cons p pre')
  have "scar_join scar ((p # pre') @ A # B # post)
        = (p @ concat (map (\<lambda>p. scar @ p) pre') @ scar) @ (A @ scar @ B)
          @ concat (map (\<lambda>p. scar @ p) post)"
    by (simp add: scar_join_Cons)
  then show ?thesis unfolding sublist_def Cons by blast
qed

lemma bins_join:
  assumes "\<forall>p\<in>set (ms @ cs @ ds). p \<noteq> []"
  shows "scar_join scar (filter (\<lambda>b. b \<noteq> [])
            [ori, scar_join scar ms, scar_join scar cs, scar_join scar ds])
         = scar_join scar (filter (\<lambda>p. p \<noteq> []) (ori # ms @ cs @ ds))"
proof -
  from assms have ne: "\<forall>p\<in>set ms. p \<noteq> []" "\<forall>p\<in>set cs. p \<noteq> []" "\<forall>p\<in>set ds. p \<noteq> []"
    by auto
  then have f: "filter (\<lambda>p. p \<noteq> []) ms = ms" "filter (\<lambda>p. p \<noteq> []) cs = cs"
    "filter (\<lambda>p. p \<noteq> []) ds = ds"
    by (simp_all add: filter_id_conv)
  have e: "scar_join scar ms = [] \<longleftrightarrow> ms = []" "scar_join scar cs = [] \<longleftrightarrow> cs = []"
    "scar_join scar ds = [] \<longleftrightarrow> ds = []"
    using ne by (simp_all add: scar_join_eq_Nil)
  have a: "scar_join scar (ms @ cs @ ds)
        = scar_join scar (filter (\<lambda>b. b \<noteq> [])
            [scar_join scar ms, scar_join scar cs, scar_join scar ds])"
    by (simp add: scar_join_append e)
  show ?thesis
  proof (cases "ori = []")
    case True
    then show ?thesis using a by (simp add: f)
  next
    case False
    have "scar_join scar (ori # ms @ cs @ ds) = scar_join scar ([ori] @ (ms @ cs @ ds))" by simp
    also have "\<dots> = (if ms @ cs @ ds = [] then ori
                     else ori @ scar @ scar_join scar (ms @ cs @ ds))"
      by (subst scar_join_append) simp
    finally have b: "scar_join scar (ori # ms @ cs @ ds)
        = (if ms @ cs @ ds = [] then ori else ori @ scar @ scar_join scar (ms @ cs @ ds))" .
    show ?thesis using False by (simp add: f b e scar_join_append)
  qed
qed

section \<open>Claims about the assembly\<close>

text \<open>
  C3, as stated, does not hold for every list of part sequences: with the library
  \<open>a = A\<close>, \<open>b =\<close> the empty string, \<open>c = T\<close> and the design \<open>a, b, c\<close>, the loop
  appends a spacer before the empty part and another before \<open>T\<close>, so the plasmid holds
  two spacers with nothing between them and is not the spacer-join of its non-empty
  segments.
\<close>

theorem scar_doubled_after_empty_part:
  "assemble BIOBRICK_SCAR ''GG''
     [''a'' \<mapsto> ''A'', ''b'' \<mapsto> '''', ''c'' \<mapsto> ''T''] [] [''a'', ''b'', ''c'']
   = Inr (''A'' @ BIOBRICK_SCAR @ BIOBRICK_SCAR @ ''T'',
          [ScheduledMarker ''a'', ScheduledMarker ''b'', ScheduledMarker ''c''])
   \<and> ''A'' @ BIOBRICK_SCAR @ BIOBRICK_SCAR @ ''T''
       \<noteq> scar_join BIOBRICK_SCAR (filter (\<lambda>p. p \<noteq> []) [''A'', '''', ''T''])"
  by (simp add: assemble_def classify_key_def ORI_KEY_IN_DESIGN_def dict_contains_def
        dict_get_def endswith_def initial_parts_def concatenate_def BIOBRICK_SCAR_def)

text \<open>
  C3 (amended): for every list of non-empty part sequences (marker, MCS and default-gene
  parts; the origin part may be empty), the plasmid is the non-empty segments joined with
  exactly one spacer between neighbours: no spacer before the first non-empty segment, no
  two spacers in a row; and for any two consecutive non-empty bins \<open>A\<close>, \<open>B\<close> in the
  order origin, markers, MCS, default genes, \<open>A + scar + B\<close> occurs in the plasmid as a
  contiguous block.
\<close>

theorem scar_between_nonempty_segments:
  assumes "\<forall>p\<in>set (marker_parts st @ mcs_parts st @ map snd dg). p \<noteq> []"
  shows "fst (concatenate scar dg st)
           = scar_join scar
               (filter (\<lambda>p. p \<noteq> []) (ori_part st # marker_parts st @ mcs_parts st @ map snd dg))
         \<and> (\<forall>pre A B post.
               filter (\<lambda>b. b \<noteq> [])
                 [ori_part st, scar_join scar (marker_parts st), scar_join scar (mcs_parts st),
                  scar_join scar (map snd dg)] = pre @ A # B # post
               \<longrightarrow> sublist (A @ scar @ B) (fst (concatenate scar dg st)))"
proof -
  let ?parts = "marker_parts st @ mcs_parts st @ map snd dg"
  have fin: "fst (concatenate scar dg st)
      = scar_join scar (filter (\<lambda>p. p \<noteq> []) (ori_part st # ?parts))"
    using dropWhile_empty_filter [OF assms, of "ori_part st"]
    by (simp add: concatenate_closed append_parts_join)
  have bins: "scar_join scar (filter (\<lambda>b. b \<noteq> [])
            [ori_part st, scar_join scar (marker_parts st), scar_join scar (mcs_parts st),
             scar_join scar (map snd dg)])
      = fst (concatenate scar dg st)"
    unfolding fin by (rule bins_join [OF assms])
  show ?thesis
  proof (intro conjI allI impI)
    show "fst (concatenate scar dg st)
      = scar_join scar (filter (\<lambda>p. p \<noteq> []) (ori_part st # ?parts))" by (rule fin)
  next
    fix pre A B post
    assume "filter (\<lambda>b. b \<noteq> [])
                 [ori_part st, scar_join scar (marker_parts st), scar_join scar (mcs_parts st),
                  scar_join scar (map snd dg)] = pre @ A # B # post"
    then have "fst (concatenate scar dg st) = scar_join scar (pre @ A # B # post)"
      using bins by simp
    then show "sublist (A @ scar @ B) (fst (concatenate scar dg st))"
      by (simp add: scar_join_adjacent)
  qed
qed

text \<open>
  C3, witness: origin \<open>OOO\<close>, markers \<open>AAA\<close> and \<open>CC\<close>, no MCS part, one default gene
  \<open>DD\<close>, spacer \<open>XX\<close>.
\<close>

theorem scar_between_nonempty_segments_witness:
  "fst (concatenate ''XX'' [(''d'', ''DD'')]
          \<lparr>ori_part = ''OOO'', marker_parts = [''AAA'', ''CC''], mcs_parts = [], printed = []\<rparr>)
     = ''OOOXXAAAXXCCXXDD''
   \<and> sublist (''OOO'' @ ''XX'' @ ''AAAXXCC'')
       (fst (concatenate ''XX'' [(''d'', ''DD'')]
          \<lparr>ori_part = ''OOO'', marker_parts = [''AAA'', ''CC''], mcs_parts = [], printed = []\<rparr>))
   \<and> sublist (''AAAXXCC'' @ ''XX'' @ ''DD'')
       (fst (concatenate ''XX'' [(''d'', ''DD'')]
          \<lparr>ori_part = ''OOO'', marker_parts = [''AAA'', ''CC''], mcs_parts = [], printed = []\<rparr>))"
proof -
  let ?st = "\<lparr>ori_part = ''OOO'', marker_parts = [''AAA'', ''CC''], mcs_parts = [],
              printed = []\<rparr>"
  let ?dg = "[(''d'', ''DD'')]"
  have h: "\<forall>p\<in>set (marker_parts ?st @ mcs_parts ?st @ map snd ?dg). p \<noteq> []" by simp
  note t = scar_between_nonempty_segments [OF h, of "''XX''"]
  from t have a: "fst (concatenate ''XX'' ?dg ?st) = ''OOOXXAAAXXCCXXDD''" by simp
  from t have b: "sublist (''OOO'' @ ''XX'' @ ''AAAXXCC'') (fst (concatenate ''XX'' ?dg ?st))"
    by (elim conjE allE [of _ "[]"] allE [of _ "''OOO''"] allE [of _ "''AAAXXCC''"]
          allE [of _ "[''DD'']"]) simp
  from t have c: "sublist (''AAAXXCC'' @ ''XX'' @ ''DD'') (fst (concatenate ''XX'' ?dg ?st))"
    by (elim conjE allE [of _ "[''OOO'']"] allE [of _ "''AAAXXCC''"] allE [of _ "''DD''"]
          allE [of _ "[]"]) simp
  from a b c show ?thesis by blast
qed

text \<open>
  C6: design keys \<open>geneB_site, ori_pMB1, geneA\<close>, library \<open>geneA = AAA\<close>,
  \<open>geneB_site = TTT\<close>, origin part \<open>OOO\<close>, spacer \<open>XX\<close>, no default genes: the plasmid
  is \<open>OOO + XX + AAA + XX + TTT\<close>, markers before MCS whatever the request order. A
  library entry under the origin key changes nothing: the origin key binds the origin part
  passed in. With the script's own spacer the layout is the same.
\<close>

theorem design_scenario:
  "assemble ''XX'' ''OOO'' [''geneA'' \<mapsto> ''AAA'', ''geneB_site'' \<mapsto> ''TTT''] []
     [''geneB_site'', ''ori_pMB1'', ''geneA'']
   = Inr (''OOO'' @ ''XX'' @ ''AAA'' @ ''XX'' @ ''TTT'',
          [ScheduledMCS ''geneB_site'', FoundOri ''ori_pMB1'', ScheduledMarker ''geneA''])
   \<and> assemble ''XX'' ''OOO''
       [''geneA'' \<mapsto> ''AAA'', ''geneB_site'' \<mapsto> ''TTT'', ''ori_pMB1'' \<mapsto> ''GGG''] []
       [''geneB_site'', ''ori_pMB1'', ''geneA'']
     = Inr (''OOOXXAAAXXTTT'',
          [ScheduledMCS ''geneB_site'', FoundOri ''ori_pMB1'', ScheduledMarker ''geneA''])
   \<and> assemble BIOBRICK_SCAR ''OOO'' [''geneA'' \<mapsto> ''AAA'', ''geneB_site'' \<mapsto> ''TTT''] []
       [''geneB_site'', ''ori_pMB1'', ''geneA'']
     = Inr (''OOO'' @ BIOBRICK_SCAR @ ''AAA'' @ BIOBRICK_SCAR @ ''TTT'',
          [ScheduledMCS ''geneB_site'', FoundOri ''ori_pMB1'', ScheduledMarker ''geneA''])"
  by (simp add: assemble_def classify_key_def ORI_KEY_IN_DESIGN_def dict_contains_def
        dict_get_def endswith_def initial_parts_def concatenate_def BIOBRICK_SCAR_def)


















text \<open>Every key found in the library adds one entry to one of the two bins.\<close>

lemma count_bins:
  "count_list (map (\<lambda>k. the (db k)) (filter (to_markers db) keys)) s
   + count_list (map (\<lambda>k. the (db k)) (filter (to_mcs db) keys)) s
   = length (filter (\<lambda>k. k \<noteq> ORI_KEY_IN_DESIGN \<and> db k = Some s) keys)"
  by (induction keys) (auto simp: to_markers_def to_mcs_def)

lemma length_bins:
  "length (filter (to_markers db) keys) + length (filter (to_mcs db) keys)
   = length (filter (\<lambda>k. k \<noteq> ORI_KEY_IN_DESIGN \<and> db k \<noteq> None) keys)"
  by (induction keys) (auto simp: to_markers_def to_mcs_def)

text \<open>The bins written out with the tests of the sorting loop.\<close>

lemma count_bins_explicit:
  "count_list
     (map (\<lambda>k. the (db k))
        (filter (\<lambda>k. k \<noteq> ORI_KEY_IN_DESIGN \<and> db k \<noteq> None \<and> \<not> endswith k ''_site'') keys)
      @ map (\<lambda>k. the (db k))
        (filter (\<lambda>k. k \<noteq> ORI_KEY_IN_DESIGN \<and> db k \<noteq> None \<and> endswith k ''_site'') keys)) s
   = length (filter (\<lambda>k. k \<noteq> ORI_KEY_IN_DESIGN \<and> db k = Some s) keys)"
  by (induction keys) auto

lemma to_bins_explicit:
  "to_markers db = (\<lambda>k. k \<noteq> ORI_KEY_IN_DESIGN \<and> db k \<noteq> None \<and> \<not> endswith k ''_site'')"
  "to_mcs db = (\<lambda>k. k \<noteq> ORI_KEY_IN_DESIGN \<and> db k \<noteq> None \<and> endswith k ''_site'')"
  by (simp_all add: to_markers_def to_mcs_def fun_eq_iff)

text \<open>
  C9: the sorting loop appends one entry per occurrence of a key. The marker bin holds the
  sequences of the design's marker keys, one for each occurrence and in request order, the
  MCS bin likewise; a sequence \<open>s\<close> sits in the two bins as many times as the design has
  occurrences of non-origin keys bound to \<open>s\<close>; and the assembled plasmid is these
  entries, after the origin part and before the default genes, joined by spacers from the
  first non-empty segment on. In particular a design that repeats a non-origin key with a
  non-empty sequence \<open>n\<close> times assembles to \<open>n\<close> copies of the sequence joined by
  spacers.
\<close>

theorem repeated_keys_each_appended:
  "(\<exists>st final pr.
       classify_loop f db keys initial_parts = Inr st
     \<and> assemble scar f db dg keys = Inr (final, pr)
     \<and> ori_part st = (if ORI_KEY_IN_DESIGN \<in> set keys then f else [])
     \<and> marker_parts st
         = map (\<lambda>k. the (db k))
             (filter (\<lambda>k. k \<noteq> ORI_KEY_IN_DESIGN \<and> db k \<noteq> None \<and> \<not> endswith k ''_site'')
                keys)
     \<and> mcs_parts st
         = map (\<lambda>k. the (db k))
             (filter (\<lambda>k. k \<noteq> ORI_KEY_IN_DESIGN \<and> db k \<noteq> None \<and> endswith k ''_site'') keys)
     \<and> final = scar_join scar
                 (dropWhile (\<lambda>p. p = [])
                    (ori_part st # marker_parts st @ mcs_parts st @ map snd dg))
     \<and> count_list (marker_parts st @ mcs_parts st) s
         = length (filter (\<lambda>k. k \<noteq> ORI_KEY_IN_DESIGN \<and> db k = Some s) keys))
   \<and> (key \<noteq> ORI_KEY_IN_DESIGN \<and> db key = Some s \<and> s \<noteq> [] \<longrightarrow>
        (\<exists>pr. assemble scar f db [] (replicate n key)
                = Inr (scar_join scar (replicate n s), pr)))"
proof (intro conjI impI)
  let ?M = "\<lambda>k. k \<noteq> ORI_KEY_IN_DESIGN \<and> db k \<noteq> None \<and> \<not> endswith k ''_site''"
  let ?C = "\<lambda>k. k \<noteq> ORI_KEY_IN_DESIGN \<and> db k \<noteq> None \<and> endswith k ''_site''"
  define st where "st = \<lparr>ori_part = (if ORI_KEY_IN_DESIGN \<in> set keys then f else []),
      marker_parts = map (\<lambda>k. the (db k)) (filter ?M keys),
      mcs_parts = map (\<lambda>k. the (db k)) (filter ?C keys),
      printed = map (key_message db) keys\<rparr>"
  have l: "classify_loop f db keys initial_parts = Inr st"
    by (simp add: classify_loop_closed initial_parts_def st_def to_bins_explicit)
  have a: "assemble scar f db dg keys
      = Inr (scar_join scar
               (dropWhile (\<lambda>p. p = [])
                  (ori_part st # marker_parts st @ mcs_parts st @ map snd dg)),
             printed st @ default_messages dg)"
    by (simp add: assemble_def l concatenate_closed append_parts_join)
  have c: "count_list (marker_parts st @ mcs_parts st) s
         = length (filter (\<lambda>k. k \<noteq> ORI_KEY_IN_DESIGN \<and> db k = Some s) keys)"
    using count_bins_explicit [of db keys s] by (simp add: st_def)
  show "\<exists>st final pr.
       classify_loop f db keys initial_parts = Inr st
     \<and> assemble scar f db dg keys = Inr (final, pr)
     \<and> ori_part st = (if ORI_KEY_IN_DESIGN \<in> set keys then f else [])
     \<and> marker_parts st = map (\<lambda>k. the (db k)) (filter ?M keys)
     \<and> mcs_parts st = map (\<lambda>k. the (db k)) (filter ?C keys)
     \<and> final = scar_join scar
                 (dropWhile (\<lambda>p. p = [])
                    (ori_part st # marker_parts st @ mcs_parts st @ map snd dg))
     \<and> count_list (marker_parts st @ mcs_parts st) s
         = length (filter (\<lambda>k. k \<noteq> ORI_KEY_IN_DESIGN \<and> db k = Some s) keys)"
    by (intro exI conjI) (rule l, rule a, simp add: st_def, simp add: st_def,
        simp add: st_def, rule refl, rule c)
next
  assume h: "key \<noteq> ORI_KEY_IN_DESIGN \<and> db key = Some s \<and> s \<noteq> []"
  then have ori: "ORI_KEY_IN_DESIGN \<notin> set (replicate n key)" by auto
  have parts: "map (\<lambda>k. the (db k)) (filter (to_markers db) (replicate n key))
        @ map (\<lambda>k. the (db k)) (filter (to_mcs db) (replicate n key)) = replicate n s"
    using h by (cases "endswith key ''_site''") (simp_all add: to_markers_def to_mcs_def)
  have "dropWhile (\<lambda>p. p = []) ([] # replicate n s) = replicate n s"
    using h by (cases n) simp_all
  then have "assemble scar f db [] (replicate n key)
      = Inr (scar_join scar (replicate n s),
             map (key_message db) (replicate n key) @ default_messages [])"
    unfolding assemble_closed using h ori parts by (auto simp: append_parts_join)
  then show "\<exists>pr. assemble scar f db [] (replicate n key)
                = Inr (scar_join scar (replicate n s), pr)"
    by blast
qed

text \<open>C9, witness: the design \<open>geneA, geneA, geneA\<close> assembles to \<open>AAA + XX + AAA + XX + AAA\<close>.\<close>

theorem repeated_keys_each_appended_witness:
  "''geneA'' \<noteq> ORI_KEY_IN_DESIGN
   \<and> [''geneA'' \<mapsto> ''AAA''] ''geneA'' = Some ''AAA''
   \<and> assemble ''XX'' ''OOO'' [''geneA'' \<mapsto> ''AAA''] [] [''geneA'', ''geneA'', ''geneA'']
       = Inr (''AAAXXAAAXXAAA'',
              [ScheduledMarker ''geneA'', ScheduledMarker ''geneA'', ScheduledMarker ''geneA''])
   \<and> (\<exists>pr. assemble ''XX'' ''OOO'' [''geneA'' \<mapsto> ''AAA''] []
              (replicate (Suc (Suc (Suc 0))) ''geneA'')
            = Inr (scar_join ''XX'' (replicate (Suc (Suc (Suc 0))) ''AAA''), pr))"
proof -
  have h: "''geneA'' \<noteq> ORI_KEY_IN_DESIGN \<and> [''geneA'' \<mapsto> ''AAA''] ''geneA'' = Some ''AAA''
      \<and> ''AAA'' \<noteq> []"
    by (simp add: ORI_KEY_IN_DESIGN_def)
  have a: "assemble ''XX'' ''OOO'' [''geneA'' \<mapsto> ''AAA''] [] [''geneA'', ''geneA'', ''geneA'']
       = Inr (''AAAXXAAAXXAAA'',
              [ScheduledMarker ''geneA'', ScheduledMarker ''geneA'', ScheduledMarker ''geneA''])"
    by (simp add: assemble_def classify_key_def ORI_KEY_IN_DESIGN_def dict_contains_def
        dict_get_def endswith_def initial_parts_def concatenate_def)
  from repeated_keys_each_appended [of "''OOO''" "[''geneA'' \<mapsto> ''AAA'']" "[]" "''XX''" "[]"
      "''AAA''" "''geneA''" "Suc (Suc (Suc 0))"] h
  have "\<exists>pr. assemble ''XX'' ''OOO'' [''geneA'' \<mapsto> ''AAA''] []
              (replicate (Suc (Suc (Suc 0))) ''geneA'')
            = Inr (scar_join ''XX'' (replicate (Suc (Suc (Suc 0))) ''AAA''), pr)"
    by blast
  with h a show ?thesis by blast
qed

text \<open>
  C10: when the design does not contain the origin key, the origin slot stays empty, the
  plasmid is what the concatenation loop builds from the empty accumulator over the
  marker, MCS and default-gene parts (these parts joined by spacers, from the first
  non-empty one on), and it does not depend on the origin window that was located.
\<close>

theorem origin_slot_empty_without_key:
  assumes "ORI_KEY_IN_DESIGN \<notin> set keys"
  shows "\<exists>st. classify_loop f db keys initial_parts = Inr st
     \<and> ori_part st = []
     \<and> assemble scar f db dg keys
         = Inr (append_parts scar (marker_parts st @ mcs_parts st @ map snd dg) [],
                snd (concatenate scar dg st))
     \<and> append_parts scar (marker_parts st @ mcs_parts st @ map snd dg) []
         = scar_join scar
             (dropWhile (\<lambda>p. p = []) (marker_parts st @ mcs_parts st @ map snd dg))
     \<and> assemble scar f' db dg keys = assemble scar f db dg keys"
  using assms
  by (simp add: classify_loop_closed assemble_def initial_parts_def concatenate_closed
        append_parts_join)

text \<open>C10, witness: the design \<open>geneB_site, geneA\<close> with one default gene.\<close>

theorem origin_slot_empty_without_key_witness:
  "ORI_KEY_IN_DESIGN \<notin> set [''geneB_site'', ''geneA'']
   \<and> assemble BIOBRICK_SCAR ''OOO'' [''geneA'' \<mapsto> ''AAA'', ''geneB_site'' \<mapsto> ''TTT'']
       [(''d'', ''CC'')] [''geneB_site'', ''geneA'']
     = Inr (''AAATACTAGAGTTTTACTAGAGCC'',
            [ScheduledMCS ''geneB_site'', ScheduledMarker ''geneA'', AddingDefaultGenes,
             AddedDefaultGene ''d''])
   \<and> assemble BIOBRICK_SCAR ''GGG'' [''geneA'' \<mapsto> ''AAA'', ''geneB_site'' \<mapsto> ''TTT'']
       [(''d'', ''CC'')] [''geneB_site'', ''geneA'']
     = assemble BIOBRICK_SCAR ''OOO'' [''geneA'' \<mapsto> ''AAA'', ''geneB_site'' \<mapsto> ''TTT'']
       [(''d'', ''CC'')] [''geneB_site'', ''geneA'']"
proof -
  have h: "ORI_KEY_IN_DESIGN \<notin> set [''geneB_site'', ''geneA'']"
    by (simp add: ORI_KEY_IN_DESIGN_def)
  have a: "assemble BIOBRICK_SCAR ''OOO'' [''geneA'' \<mapsto> ''AAA'', ''geneB_site'' \<mapsto> ''TTT'']
       [(''d'', ''CC'')] [''geneB_site'', ''geneA'']
     = Inr (''AAATACTAGAGTTTTACTAGAGCC'',
            [ScheduledMCS ''geneB_site'', ScheduledMarker ''geneA'', AddingDefaultGenes,
             AddedDefaultGene ''d''])"
    by (simp add: assemble_def classify_key_def ORI_KEY_IN_DESIGN_def dict_contains_def
        dict_get_def endswith_def initial_parts_def concatenate_def BIOBRICK_SCAR_def)
  from origin_slot_empty_without_key [OF h, of "''OOO''"
      "[''geneA'' \<mapsto> ''AAA'', ''geneB_site'' \<mapsto> ''TTT'']" BIOBRICK_SCAR "[(''d'', ''CC'')]" "''GGG''"]
  have "assemble BIOBRICK_SCAR ''GGG'' [''geneA'' \<mapsto> ''AAA'', ''geneB_site'' \<mapsto> ''TTT'']
       [(''d'', ''CC'')] [''geneB_site'', ''geneA'']
     = assemble BIOBRICK_SCAR ''OOO'' [''geneA'' \<mapsto> ''AAA'', ''geneB_site'' \<mapsto> ''TTT'']
       [(''d'', ''CC'')] [''geneB_site'', ''geneA'']"
    by blast
  with h a show ?thesis by blast
qed

end
